theory Spec2Isabelle
  imports Complex_Main "HOL-Library.Word" "HOL-Library.Log_Nat"
begin

unbundle bit_operations_syntax

section \<open>JavaScript numbers\<close>

text \<open>
  Every value of the library is a JavaScript \<open>number\<close>: an IEEE-754 binary64 value.
  A finite one is modelled by the real it denotes, the three special values are
  constructors of their own. The two zeros are identified: no function modelled here
  can tell them apart except through the sign of an infinity produced by a division
  by zero, which is then the sign for \<open>+0\<close>.
\<close>

datatype number = Fin real | PInf | NInf | NaN

subsection \<open>Rounding to binary64\<close>

text \<open>Round to the nearest integer, ties to the even one.\<close>

definition rne :: "real \<Rightarrow> int" where
  "rne x = (let f = \<lfloor>x\<rfloor>; d = x - of_int f in
     if d < 1 / 2 then f
     else if 1 / 2 < d then f + 1
     else if even f then f else f + 1)"

text \<open>
  The binary exponent of a positive real: the \<open>k\<close> with \<open>2 ^ k \<le> x < 2 ^ (k + 1)\<close>,
  computed from the bit length of an integer next to \<open>x\<close> or to \<open>1 / x\<close>.
\<close>

definition ilog2 :: "real \<Rightarrow> int" where
  "ilog2 x = (if 1 \<le> x then bitlen \<lfloor>x\<rfloor> - 1 else - bitlen (\<lceil>1 / x\<rceil> - 1))"

text \<open>
  The exponent of the unit in the last place: 53 significant bits, and no exponent
  below that of the subnormal numbers.
\<close>

definition ulp_exp :: "real \<Rightarrow> int" where
  "ulp_exp x = max (ilog2 \<bar>x\<bar> - 52) (- 1074)"

definition fl :: "real \<Rightarrow> real" where
  "fl x = (if x = 0 then 0
           else of_int (rne (x / 2 powi ulp_exp x)) * 2 powi ulp_exp x)"

text \<open>A rounded value is out of range when its magnitude reaches \<open>2 ^ 1024\<close>.\<close>

definition out_of_range :: "real \<Rightarrow> bool" where
  "out_of_range y \<longleftrightarrow> y \<noteq> 0 \<and> 1024 \<le> ilog2 \<bar>y\<bar>"

text \<open>The result of an arithmetic operation whose exact value is \<open>x\<close>: rounded, and
  an infinity when the rounded value is out of range.\<close>

definition to_number :: "real \<Rightarrow> number" where
  "to_number x = (let y = fl x in
     if out_of_range y then (if 0 < y then PInf else NInf) else Fin y)"

text \<open>The reals that are binary64 values.\<close>

definition is_double :: "real \<Rightarrow> bool" where
  "is_double x \<longleftrightarrow> fl x = x \<and> \<not> out_of_range x"

subsection \<open>Operators\<close>

fun js_neg :: "number \<Rightarrow> number" where
  "js_neg (Fin a) = Fin (- a)"
| "js_neg PInf = NInf"
| "js_neg NInf = PInf"
| "js_neg NaN = NaN"

fun js_add :: "number \<Rightarrow> number \<Rightarrow> number" where
  "js_add (Fin a) (Fin b) = to_number (a + b)"
| "js_add NaN _ = NaN"
| "js_add _ NaN = NaN"
| "js_add PInf NInf = NaN"
| "js_add NInf PInf = NaN"
| "js_add PInf _ = PInf"
| "js_add _ PInf = PInf"
| "js_add NInf _ = NInf"
| "js_add _ NInf = NInf"

definition js_sub :: "number \<Rightarrow> number \<Rightarrow> number" where
  "js_sub x y = js_add x (js_neg y)"

fun js_mul :: "number \<Rightarrow> number \<Rightarrow> number" where
  "js_mul (Fin a) (Fin b) = to_number (a * b)"
| "js_mul NaN _ = NaN"
| "js_mul _ NaN = NaN"
| "js_mul (Fin a) y = (if a = 0 then NaN else if 0 < a then y else js_neg y)"
| "js_mul x (Fin b) = (if b = 0 then NaN else if 0 < b then x else js_neg x)"
| "js_mul PInf y = y"
| "js_mul NInf y = js_neg y"

fun js_div :: "number \<Rightarrow> number \<Rightarrow> number" where
  "js_div (Fin a) (Fin b) =
     (if b = 0 then (if a = 0 then NaN else if 0 < a then PInf else NInf)
      else to_number (a / b))"
| "js_div NaN _ = NaN"
| "js_div _ NaN = NaN"
| "js_div (Fin a) _ = Fin 0"
| "js_div x (Fin b) = (if 0 \<le> b then x else js_neg x)"
| "js_div PInf PInf = NaN"
| "js_div PInf NInf = NaN"
| "js_div NInf PInf = NaN"
| "js_div NInf NInf = NaN"

text \<open>Truncation toward zero.\<close>

definition js_trunc :: "real \<Rightarrow> int" where
  "js_trunc x = (if x < 0 then \<lceil>x\<rceil> else \<lfloor>x\<rfloor>)"

text \<open>The remainder \<open>%\<close>: it has the sign of the dividend and is exact.\<close>

fun js_mod :: "number \<Rightarrow> number \<Rightarrow> number" where
  "js_mod (Fin a) (Fin b) =
     (if b = 0 then NaN else Fin (a - b * of_int (js_trunc (a / b))))"
| "js_mod NaN _ = NaN"
| "js_mod _ NaN = NaN"
| "js_mod PInf _ = NaN"
| "js_mod NInf _ = NaN"
| "js_mod (Fin a) _ = Fin a"

fun js_lt :: "number \<Rightarrow> number \<Rightarrow> bool" where
  "js_lt (Fin a) (Fin b) \<longleftrightarrow> a < b"
| "js_lt NaN _ \<longleftrightarrow> False"
| "js_lt _ NaN \<longleftrightarrow> False"
| "js_lt _ NInf \<longleftrightarrow> False"
| "js_lt NInf _ \<longleftrightarrow> True"
| "js_lt PInf _ \<longleftrightarrow> False"
| "js_lt _ PInf \<longleftrightarrow> True"

definition js_gt :: "number \<Rightarrow> number \<Rightarrow> bool" where
  "js_gt x y \<longleftrightarrow> js_lt y x"

text \<open>Strict equality \<open>===\<close> on numbers.\<close>

definition js_eq :: "number \<Rightarrow> number \<Rightarrow> bool" where
  "js_eq x y \<longleftrightarrow> x \<noteq> NaN \<and> x = y"

fun Math_abs :: "number \<Rightarrow> number" where
  "Math_abs (Fin a) = Fin \<bar>a\<bar>"
| "Math_abs NaN = NaN"
| "Math_abs _ = PInf"

fun Math_ceil :: "number \<Rightarrow> number" where
  "Math_ceil (Fin a) = Fin (of_int \<lceil>a\<rceil>)"
| "Math_ceil x = x"

text \<open>\<open>Math.round\<close> rounds to the nearest integer, a tie toward \<open>+\<infinity>\<close>.\<close>

fun Math_round :: "number \<Rightarrow> number" where
  "Math_round (Fin a) = Fin (of_int \<lfloor>a + 1 / 2\<rfloor>)"
| "Math_round x = x"

definition Math_min :: "number \<Rightarrow> number \<Rightarrow> number" where
  "Math_min x y = (if x = NaN \<or> y = NaN then NaN else if js_lt y x then y else x)"

definition Math_max :: "number \<Rightarrow> number \<Rightarrow> number" where
  "Math_max x y = (if x = NaN \<or> y = NaN then NaN else if js_lt x y then y else x)"

definition Math_PI :: number where
  "Math_PI = Fin (884279719003555 / 281474976710656)"

definition Number_EPSILON :: number where
  "Number_EPSILON = Fin (1 / 2 ^ 52)"

subsection \<open>32-bit integer operators\<close>

text \<open>
  The bitwise operators take their operands through \<open>ToInt32\<close>: truncation toward zero,
  then reduction modulo \<open>2 ^ 32\<close> into the signed range; \<open>NaN\<close> and the infinities
  become 0. Their results are numbers that are integers, modelled as \<open>int\<close>.
\<close>

type_synonym int32 = "32 word"

fun ToInt32 :: "number \<Rightarrow> int32" where
  "ToInt32 (Fin x) = word_of_int (js_trunc x)"
| "ToInt32 _ = 0"

definition js_sar :: "int \<Rightarrow> nat \<Rightarrow> int" where
  "js_sar a k = sint (signed_drop_bit (k mod 32) (word_of_int a :: int32))"

definition js_or :: "int \<Rightarrow> int \<Rightarrow> int" where
  "js_or a b = sint ((word_of_int a :: int32) OR word_of_int b)"

definition js_and :: "int \<Rightarrow> int \<Rightarrow> int" where
  "js_and a b = sint ((word_of_int a :: int32) AND word_of_int b)"

section \<open>The library\<close>

text \<open>
  The constants and functions of \<^verbatim>\<open>src/index.ts\<close> that the claims are about, in the
  order of the source and under the names they have there (\<open>round\<close> is \<open>round_mathf\<close>,
  the parameter \<open>length\<close> of \<open>repeat\<close> is \<open>len\<close>). The comparisons, the arithmetic and
  the bitwise operators are those of the previous section.
\<close>

definition FULL_ANGLE :: number where "FULL_ANGLE = Fin 360"
definition STRAIGHT_ANGLE :: number where "STRAIGHT_ANGLE = Fin 180"
definition IS_INTEGER :: number where "IS_INTEGER = Fin (1 / 2)"

definition deg2Rad :: number where
  "deg2Rad = js_div (js_mul Math_PI (Fin 2)) FULL_ANGLE"

definition rad2Deg :: number where
  "rad2Deg = js_div FULL_ANGLE (js_mul Math_PI (Fin 2))"

text \<open>\<open>value >> 0\<close>\<close>

definition toInt :: "number \<Rightarrow> int" where
  "toInt v = sint (signed_drop_bit 0 (ToInt32 v))"

definition approximately :: "number \<Rightarrow> number \<Rightarrow> bool" where
  "approximately f1 f2 \<longleftrightarrow> js_lt (Math_abs (js_sub f1 f2)) Number_EPSILON"

definition clamp :: "number \<Rightarrow> number \<Rightarrow> number \<Rightarrow> number" where
  "clamp v lo hi = (if js_lt v lo then lo else if js_gt v hi then hi else v)"

definition clamp01 :: "number \<Rightarrow> number" where
  "clamp01 v = (if js_lt v (Fin 0) then Fin 0 else if js_gt v (Fin 1) then Fin 1 else v)"

text \<open>
  In \<open>nextPowerOfTwo\<close> the decrement and the increment are number operations on
  integers of magnitude at most \<open>2 ^ 31\<close>, where they are exact; only the shifts and
  the ors go through 32 bits.
\<close>

definition nextPowerOfTwo :: "number \<Rightarrow> int" where
  "nextPowerOfTwo v0 =
     (let v = toInt v0 in
      if v < 0 then 0
      else
        let v = v - 1;
            v = js_or v (js_sar v 1);
            v = js_or v (js_sar v 2);
            v = js_or v (js_sar v 4);
            v = js_or v (js_sar v 8);
            v = js_or v (js_sar v 16)
        in v + 1)"

definition closestPowerOfTwo :: "number \<Rightarrow> int" where
  "closestPowerOfTwo v =
     (let nextValue = nextPowerOfTwo v in
      if js_gt (js_sub (Fin (of_int nextValue)) v) (Fin (of_int (js_sar nextValue 2)))
      then js_sar nextValue 1
      else nextValue)"

definition isPowerOfTwo :: "number \<Rightarrow> bool" where
  "isPowerOfTwo v0 = (let v = toInt v0 in js_and v (v - 1) = 0)"

definition inverseLerp :: "number \<Rightarrow> number \<Rightarrow> number \<Rightarrow> number" where
  "inverseLerp a b v = js_div (js_sub (clamp v (Math_min a b) (Math_max a b)) a) (js_sub b a)"

definition lerp :: "number \<Rightarrow> number \<Rightarrow> number \<Rightarrow> number" where
  "lerp a b t = js_add (js_mul (js_sub b a) (clamp01 t)) a"

text \<open>
  The two loops of \<open>lerpAngle\<close>. Each returns the adjusted \<open>b\<close>, or \<open>None\<close> when
  it runs forever.
\<close>

partial_function (option) lerpAngle_up :: "number \<Rightarrow> number \<Rightarrow> number option" where
  "lerpAngle_up a b =
     (if js_gt a (js_add b STRAIGHT_ANGLE) then lerpAngle_up a (js_add b FULL_ANGLE)
      else Some b)"

partial_function (option) lerpAngle_down :: "number \<Rightarrow> number \<Rightarrow> number option" where
  "lerpAngle_down a b =
     (if js_gt b (js_add a STRAIGHT_ANGLE) then lerpAngle_down a (js_sub b FULL_ANGLE)
      else Some b)"

definition lerpAngle :: "number \<Rightarrow> number \<Rightarrow> number \<Rightarrow> number option" where
  "lerpAngle a b t =
     (case lerpAngle_up a b of
        None \<Rightarrow> None
      | Some b1 \<Rightarrow>
          (case lerpAngle_down a b1 of
             None \<Rightarrow> None
           | Some b2 \<Rightarrow> Some (lerp a b2 t)))"

definition lerpUnclamped :: "number \<Rightarrow> number \<Rightarrow> number \<Rightarrow> number" where
  "lerpUnclamped a b t =
     (if js_lt t (Fin 0) \<or> js_gt t (Fin 1) then js_add a (js_mul (Math_abs (js_sub b a)) t)
      else js_add (js_mul (js_sub b a) (clamp01 t)) a)"

definition moveTowards :: "number \<Rightarrow> number \<Rightarrow> number \<Rightarrow> number" where
  "moveTowards current target maxDelta =
     (if js_gt maxDelta (Fin 0) \<and> js_lt target current
           \<and> js_lt (js_sub current maxDelta) target then target
      else if js_gt maxDelta (Fin 0) \<and> js_gt target current
           \<and> js_gt (js_add current maxDelta) target then target
      else if js_gt current target then js_sub current maxDelta
      else js_add current maxDelta)"

definition repeat :: "number \<Rightarrow> number \<Rightarrow> number" where
  "repeat t len = (if js_gt t (Fin 0) then js_mod t len else js_add len (js_mod t len))"

definition round_mathf :: "number \<Rightarrow> number" where
  "round_mathf f =
     (let ceilVal = js_add f IS_INTEGER in
      if js_eq ceilVal (Math_ceil f)
      then (if js_eq (js_mod ceilVal (Fin 2)) (Fin 0) then js_add f IS_INTEGER
            else js_sub f IS_INTEGER)
      else Math_round f)"

section \<open>Truncation and the power-of-two test\<close>

lemma js_trunc_small: "- 1 < x \<Longrightarrow> x < 1 \<Longrightarrow> js_trunc x = 0"
  unfolding js_trunc_def by (simp add: ceiling_eq_iff floor_eq_iff)

lemma toInt_small: "- 1 < x \<Longrightarrow> x < 1 \<Longrightarrow> toInt (Fin x) = 0"
  by (simp add: toInt_def js_trunc_small)

lemma js_and_zero: "js_and 0 b = 0"
  by (simp add: js_and_def)

text \<open>
  Claim C10. For every value strictly between \<open>-1\<close> and \<open>1\<close>, \<open>isPowerOfTwo\<close>
  returns true: the truncation to 32 bits maps the value to 0, and \<open>0 & -1\<close> is 0.
\<close>

theorem isPowerOfTwo_fraction: "- 1 < x \<Longrightarrow> x < 1 \<Longrightarrow> isPowerOfTwo (Fin x)"
  by (simp add: isPowerOfTwo_def toInt_small js_and_zero)

theorem isPowerOfTwo_fraction_witness:
  "isPowerOfTwo (Fin (1 / 2)) \<and> isPowerOfTwo (Fin (- (9 / 10)))"
  using isPowerOfTwo_fraction [of "1 / 2"] isPowerOfTwo_fraction [of "- (9 / 10)"]
  by simp

section \<open>The next power of two\<close>

text \<open>
  On the non-negative 32-bit integers the shift is a division by a power of two and
  the or is the or of the integers.
\<close>

lemma js_sar_nonneg:
  "0 \<le> x \<Longrightarrow> x < 2 ^ 31 \<Longrightarrow> k < 32 \<Longrightarrow> js_sar x k = drop_bit k x"
  by (simp add: js_sar_def sint_signed_drop_bit_eq sint_sbintrunc' signed_take_bit_int_eq_self)

lemma js_or_nonneg:
  assumes "0 \<le> x" "x < 2 ^ 31" "0 \<le> y" "y < 2 ^ 31"
  shows "js_or x y = x OR y"
proof -
  have sx: "signed_take_bit 31 x = x" and sy: "signed_take_bit 31 y = y"
    using assms by (auto intro: signed_take_bit_int_eq_self)
  show ?thesis
    by (simp add: js_or_def signed_or_eq sint_sbintrunc' sx sy)
qed

lemma drop_bit_bound:
  fixes x :: int
  assumes "0 \<le> x" "x < 2 ^ 31"
  shows "0 \<le> drop_bit k x \<and> drop_bit k x < 2 ^ 31"
proof -
  have "drop_bit k x \<le> x"
    using assms
    by (simp add: drop_bit_eq_div)
      (metis div_by_1 one_le_numeral one_le_power zdiv_mono2 zero_less_one)
  with assms show ?thesis by simp
qed

text \<open>
  An or-shift step by \<open>k\<close> doubles the window of bits of \<open>x\<close> that each bit of the
  result collects.
\<close>

lemma smear_step:
  fixes x y :: int
  assumes "\<And>i. bit y i \<longleftrightarrow> (\<exists>j<k. bit x (i + j))"
  shows "bit (y OR drop_bit k y) i \<longleftrightarrow> (\<exists>j<2 * k. bit x (i + j))"
proof
  assume "bit (y OR drop_bit k y) i"
  then consider "bit y i" | "bit y (k + i)"
    by (auto simp: bit_or_iff bit_drop_bit_eq)
  then show "\<exists>j<2 * k. bit x (i + j)"
  proof cases
    case 1
    then obtain j where "j < k" "bit x (i + j)" using assms by blast
    then show ?thesis by (intro exI [of _ j]) simp
  next
    case 2
    then obtain j where "j < k" "bit x (k + i + j)" using assms by blast
    then show ?thesis by (intro exI [of _ "k + j"]) (simp add: ac_simps)
  qed
next
  assume "\<exists>j<2 * k. bit x (i + j)"
  then obtain j where j: "j < 2 * k" "bit x (i + j)" by blast
  show "bit (y OR drop_bit k y) i"
  proof (cases "j < k")
    case True
    with j assms have "bit y i" by blast
    then show ?thesis by (simp add: bit_or_iff)
  next
    case False
    with j have "j - k < k" "bit x (k + i + (j - k))" by (simp_all add: ac_simps)
    with assms have "bit y (k + i)" by blast
    then show ?thesis by (simp add: bit_or_iff bit_drop_bit_eq)
  qed
qed

text \<open>The five or-shift steps on a non-negative integer below \<open>2 ^ 31\<close>.\<close>

lemma smear_bits:
  fixes x :: int
  defines "y1 \<equiv> x OR drop_bit 1 x"
  defines "y2 \<equiv> y1 OR drop_bit 2 y1"
  defines "y3 \<equiv> y2 OR drop_bit 4 y2"
  defines "y4 \<equiv> y3 OR drop_bit 8 y3"
  defines "y5 \<equiv> y4 OR drop_bit 16 y4"
  shows "bit y5 i \<longleftrightarrow> (\<exists>j<32. bit x (i + j))"
proof -
  have b0: "\<And>i. bit x i \<longleftrightarrow> (\<exists>j<1. bit x (i + j))" by simp
  have b1: "\<And>i. bit y1 i \<longleftrightarrow> (\<exists>j<2. bit x (i + j))"
    unfolding y1_def using smear_step [of x 1 x, OF b0] by simp
  have b2: "\<And>i. bit y2 i \<longleftrightarrow> (\<exists>j<4. bit x (i + j))"
    unfolding y2_def using smear_step [of y1 2 x, OF b1] by simp
  have b3: "\<And>i. bit y3 i \<longleftrightarrow> (\<exists>j<8. bit x (i + j))"
    unfolding y3_def using smear_step [of y2 4 x, OF b2] by simp
  have b4: "\<And>i. bit y4 i \<longleftrightarrow> (\<exists>j<16. bit x (i + j))"
    unfolding y4_def using smear_step [of y3 8 x, OF b3] by simp
  show ?thesis
    unfolding y5_def using smear_step [of y4 16 x, OF b4] by simp
qed

lemma top_bit:
  fixes x :: int
  assumes "2 ^ m \<le> x" "x < 2 ^ Suc m"
  shows "bit x m"
proof (rule ccontr)
  assume "\<not> bit x m"
  moreover have "0 \<le> x" using assms(1) by (rule order_trans [rotated]) simp
  then have "take_bit (Suc m) x = x" using assms(2) by (rule take_bit_int_eq_self)
  ultimately have "take_bit m x = x" by (simp add: take_bit_Suc_from_most)
  moreover have "take_bit m x < 2 ^ m" by simp
  ultimately show False using assms(1) by simp
qed

lemma high_bits_zero:
  fixes x :: int
  assumes "0 \<le> x" "x < 2 ^ n" "n \<le> i"
  shows "\<not> bit x i"
proof -
  have "take_bit n x = x" using assms(1,2) by (rule take_bit_int_eq_self)
  then have "bit x i \<longleftrightarrow> bit (take_bit n x) i" by simp
  with assms(3) show ?thesis by (simp add: bit_take_bit_iff)
qed

lemma smear_mask:
  fixes x :: int
  assumes x: "0 \<le> x" "x < 2 ^ n" and low: "n = 0 \<or> 2 ^ (n - 1) \<le> x" and n: "n \<le> 32"
  defines "y1 \<equiv> x OR drop_bit 1 x"
  defines "y2 \<equiv> y1 OR drop_bit 2 y1"
  defines "y3 \<equiv> y2 OR drop_bit 4 y2"
  defines "y4 \<equiv> y3 OR drop_bit 8 y3"
  defines "y5 \<equiv> y4 OR drop_bit 16 y4"
  shows "y5 = mask n"
proof (rule bit_eqI)
  fix i
  have "bit y5 i \<longleftrightarrow> (\<exists>j<32. bit x (i + j))"
    unfolding y5_def y4_def y3_def y2_def y1_def by (rule smear_bits)
  also have "\<dots> \<longleftrightarrow> i < n"
  proof
    assume "\<exists>j<32. bit x (i + j)"
    then obtain j where j: "bit x (i + j)" by blast
    have "i + j < n"
    proof (rule ccontr)
      assume "\<not> i + j < n"
      then have "n \<le> i + j" by simp
      from high_bits_zero [OF x this] j show False by simp
    qed
    then show "i < n" by simp
  next
    assume i: "i < n"
    with low have "2 ^ (n - 1) \<le> x" by auto
    moreover from i have "Suc (n - 1) = n" by simp
    ultimately have "bit x (n - 1)" using x(2) by (intro top_bit) simp_all
    moreover from i n have "n - 1 - i < 32" "i + (n - 1 - i) = n - 1" by simp_all
    ultimately show "\<exists>j<32. bit x (i + j)" by metis
  qed
  finally show "bit y5 i \<longleftrightarrow> bit (mask n :: int) i"
    by (simp add: bit_mask_iff)
qed

lemma or_shift_nonneg:
  assumes "0 \<le> x" "x < 2 ^ 31" "k < 32"
  shows "js_or x (js_sar x k) = x OR drop_bit k x"
    and "0 \<le> x OR drop_bit k x" and "x OR drop_bit k x < 2 ^ 31"
proof -
  from drop_bit_bound [OF assms(1,2), of k]
  have d: "0 \<le> drop_bit k x" "drop_bit k x < 2 ^ 31" by simp_all
  show "js_or x (js_sar x k) = x OR drop_bit k x"
    using assms d by (simp add: js_sar_nonneg js_or_nonneg)
  show "0 \<le> x OR drop_bit k x" using assms(1) d(1) by simp
  show "x OR drop_bit k x < 2 ^ 31" using assms(1,2) d(2) by (rule OR_upper)
qed

lemma nextPowerOfTwo_positive:
  assumes v: "0 < toInt v0"
  defines "x \<equiv> toInt v0 - 1"
  defines "y1 \<equiv> x OR drop_bit 1 x"
  defines "y2 \<equiv> y1 OR drop_bit 2 y1"
  defines "y3 \<equiv> y2 OR drop_bit 4 y2"
  defines "y4 \<equiv> y3 OR drop_bit 8 y3"
  defines "y5 \<equiv> y4 OR drop_bit 16 y4"
  shows "nextPowerOfTwo v0 = y5 + 1"
proof -
  have "toInt v0 < 2 ^ 31"
    using sint_lt [of "signed_drop_bit 0 (ToInt32 v0)"] by (simp add: toInt_def)
  with v have x: "0 \<le> x" "x < 2 ^ 31" by (simp_all add: x_def)
  have s1: "js_or x (js_sar x 1) = y1" "0 \<le> y1" "y1 < 2 ^ 31"
    unfolding y1_def by (rule or_shift_nonneg [OF x]; simp)+
  have s2: "js_or y1 (js_sar y1 2) = y2" "0 \<le> y2" "y2 < 2 ^ 31"
    unfolding y2_def by (rule or_shift_nonneg [OF s1(2,3)]; simp)+
  have s3: "js_or y2 (js_sar y2 4) = y3" "0 \<le> y3" "y3 < 2 ^ 31"
    unfolding y3_def by (rule or_shift_nonneg [OF s2(2,3)]; simp)+
  have s4: "js_or y3 (js_sar y3 8) = y4" "0 \<le> y4" "y4 < 2 ^ 31"
    unfolding y4_def by (rule or_shift_nonneg [OF s3(2,3)]; simp)+
  have s5: "js_or y4 (js_sar y4 16) = y5" "0 \<le> y5" "y5 < 2 ^ 31"
    unfolding y5_def by (rule or_shift_nonneg [OF s4(2,3)]; simp)+
  have "\<not> toInt v0 < 0" using v by simp
  then show ?thesis
    unfolding nextPowerOfTwo_def Let_def x_def [symmetric]
    by (simp only: s1(1) s2(1) s3(1) s4(1) s5(1) if_False)
qed

lemma nextPowerOfTwo_least:
  assumes v: "0 < toInt v0"
  shows "\<exists>n. nextPowerOfTwo v0 = 2 ^ n \<and> toInt v0 \<le> 2 ^ n \<and> 2 ^ n < 2 * toInt v0
             \<and> (\<forall>m. toInt v0 \<le> 2 ^ m \<longrightarrow> (2::int) ^ n \<le> 2 ^ m)"
proof -
  define x where "x = toInt v0 - 1"
  define n where "n = nat (bitlen x)"
  have "toInt v0 < 2 ^ 31"
    using sint_lt [of "signed_drop_bit 0 (ToInt32 v0)"] by (simp add: toInt_def)
  with v have x: "0 \<le> x" "x < 2 ^ 31" by (simp_all add: x_def)
  have xn: "x < 2 ^ n" and low: "n = 0 \<or> 2 ^ (n - 1) \<le> x"
  proof -
    show "x < 2 ^ n"
    proof (cases "x = 0")
      case True then show ?thesis by simp
    next
      case False
      with x have "0 < x" by simp
      from bitlen_bounds [OF this] show ?thesis by (simp add: n_def)
    qed
    show "n = 0 \<or> 2 ^ (n - 1) \<le> x"
    proof (cases "x = 0")
      case True then show ?thesis by (simp add: n_def)
    next
      case False
      with x have "0 < x" by simp
      from bitlen_bounds [OF this] have "2 ^ nat (bitlen x - 1) \<le> x" by simp
      moreover have "nat (bitlen x - 1) = n - 1" by (simp add: n_def nat_diff_distrib')
      ultimately show ?thesis by simp
    qed
  qed
  have n32: "n \<le> 32"
  proof (rule ccontr)
    assume "\<not> n \<le> 32"
    then have "32 \<le> n - 1" "n \<noteq> 0" by simp_all
    then have "(2::int) ^ 32 \<le> 2 ^ (n - 1)" by (intro power_increasing) simp_all
    with low \<open>n \<noteq> 0\<close> x(2) show False by simp
  qed
  have "nextPowerOfTwo v0 = mask n + 1"
    using nextPowerOfTwo_positive [OF v] smear_mask [OF x(1) xn low n32]
    by (simp add: x_def)
  then have r: "nextPowerOfTwo v0 = 2 ^ n" by (simp add: mask_eq_exp_minus_1)
  have le: "toInt v0 \<le> 2 ^ n" using xn by (simp add: x_def)
  have lt: "(2::int) ^ n < 2 * toInt v0"
  proof (cases "n = 0")
    case True with v show ?thesis by simp
  next
    case False
    with low have "2 ^ (n - 1) \<le> x" by simp
    moreover from False have "(2::int) ^ n = 2 * 2 ^ (n - 1)" by (cases n) simp_all
    ultimately show ?thesis by (simp add: x_def)
  qed
  have least: "(2::int) ^ n \<le> 2 ^ m" if "toInt v0 \<le> 2 ^ m" for m
  proof (rule ccontr)
    assume "\<not> (2::int) ^ n \<le> 2 ^ m"
    then have "m < n" by (simp add: not_le)
    then have "(2::int) ^ m \<le> 2 ^ (n - 1)" by (intro power_increasing) simp_all
    moreover from \<open>m < n\<close> low have "2 ^ (n - 1) \<le> x" by auto
    ultimately show False using that unfolding x_def by linarith
  qed
  from r le lt least show ?thesis by blast
qed

subsection \<open>Truncation to 32 bits and the boundary cases\<close>

lemma js_trunc_range:
  assumes "- (2 ^ 31) - 1 < x" "x < 2 ^ 31"
  shows "- (2 ^ 31) \<le> js_trunc x" "js_trunc x < 2 ^ 31"
proof -
  show "- (2 ^ 31) \<le> js_trunc x"
  proof (cases "x < 0")
    case True
    have "- (2 ^ 31) - 1 < \<lceil>x\<rceil>" using assms(1) by (simp add: less_ceiling_iff)
    with True show ?thesis by (simp add: js_trunc_def)
  next
    case False
    then have "0 \<le> \<lfloor>x\<rfloor>" by simp
    with False show ?thesis by (simp add: js_trunc_def)
  qed
  show "js_trunc x < 2 ^ 31"
  proof (cases "x < 0")
    case True
    then have "\<lceil>x\<rceil> \<le> 0" by (simp add: ceiling_le_iff)
    with True show ?thesis by (simp add: js_trunc_def)
  next
    case False
    have "\<lfloor>x\<rfloor> < 2 ^ 31" using assms(2) by (simp add: floor_less_iff)
    with False show ?thesis by (simp add: js_trunc_def)
  qed
qed

lemma toInt_trunc:
  assumes "- (2 ^ 31) - 1 < x" "x < 2 ^ 31"
  shows "toInt (Fin x) = js_trunc x"
  using js_trunc_range [OF assms]
  by (simp add: toInt_def sint_sbintrunc' signed_take_bit_int_eq_self)

lemma or_shift_minus_one: "js_or (- 1) (js_sar (- 1) k) = - 1"
  by (simp add: js_or_def js_sar_def sint_signed_drop_bit_eq)

lemma nextPowerOfTwo_negative: "toInt v < 0 \<Longrightarrow> nextPowerOfTwo v = 0"
  by (simp add: nextPowerOfTwo_def)

lemma nextPowerOfTwo_at_zero: "toInt v = 0 \<Longrightarrow> nextPowerOfTwo v = 0"
  by (simp add: nextPowerOfTwo_def or_shift_minus_one)

lemma nextPowerOfTwo_0: "nextPowerOfTwo (Fin 0) = 0" by code_simp
lemma nextPowerOfTwo_1: "nextPowerOfTwo (Fin 1) = 1" by code_simp
lemma nextPowerOfTwo_5: "nextPowerOfTwo (Fin 5) = 8" by code_simp
lemma nextPowerOfTwo_minus_3: "nextPowerOfTwo (Fin (- 3)) = 0" by code_simp
lemma toInt_0: "toInt (Fin 0) = 0" by code_simp
lemma toInt_5: "toInt (Fin 5) = 5" by code_simp
lemma toInt_minus_3: "toInt (Fin (- 3)) = - 3" by code_simp
lemma js_trunc_57: "js_trunc (57 / 10) = 5" by code_simp

text \<open>
  Claim C1 says that for every input whose truncation is non-negative the result is the
  smallest power of two greater than or equal to the truncated value. At the input 0
  the truncation is 0 and the result is 0, which is below \<open>2 ^ 0\<close>, the smallest
  power of two.
\<close>

theorem nextPowerOfTwo_zero_not_power:
  "0 \<le> toInt (Fin 0) \<and> nextPowerOfTwo (Fin 0) = 0 \<and> nextPowerOfTwo (Fin 0) < 2 ^ 0"
  by (simp add: toInt_0 nextPowerOfTwo_0)

text \<open>
  Claim C1, amended. \<open>toInt\<close> is the truncation toward zero for every input whose
  truncation fits 32 bits. For an input whose 32-bit truncation is negative, and for
  one whose truncation is 0, \<open>nextPowerOfTwo\<close> returns 0. For an input whose truncation
  is positive it returns the smallest power of two greater than or equal to the
  truncated value: a power of two that is at least the value and less than twice the
  value, with no wrap-around (the increment is a number addition, so the result is
  \<open>2 ^ 31\<close> for truncations above \<open>2 ^ 30\<close>). In particular \<open>nextPowerOfTwo 0 = 0\<close>,
  \<open>nextPowerOfTwo 1 = 1\<close>, \<open>nextPowerOfTwo 5 = 8\<close> and \<open>nextPowerOfTwo (-3) = 0\<close>.
\<close>

theorem nextPowerOfTwo_spec:
  "(- (2 ^ 31) - 1 < x \<and> x < 2 ^ 31 \<longrightarrow> toInt (Fin x) = js_trunc x)
   \<and> (toInt v < 0 \<longrightarrow> nextPowerOfTwo v = 0)
   \<and> (toInt v = 0 \<longrightarrow> nextPowerOfTwo v = 0)
   \<and> (0 < toInt v \<longrightarrow>
        (\<exists>n. nextPowerOfTwo v = 2 ^ n \<and> toInt v \<le> 2 ^ n \<and> 2 ^ n < 2 * toInt v
             \<and> (\<forall>m. toInt v \<le> 2 ^ m \<longrightarrow> (2::int) ^ n \<le> 2 ^ m)))
   \<and> nextPowerOfTwo (Fin 0) = 0 \<and> nextPowerOfTwo (Fin 1) = 1
   \<and> nextPowerOfTwo (Fin 5) = 8 \<and> nextPowerOfTwo (Fin (- 3)) = 0"
proof (intro conjI impI)
  assume "- (2 ^ 31) - 1 < x \<and> x < 2 ^ 31"
  then show "toInt (Fin x) = js_trunc x" by (simp add: toInt_trunc)
next
  assume "toInt v < 0"
  then show "nextPowerOfTwo v = 0" by (rule nextPowerOfTwo_negative)
next
  assume "toInt v = 0"
  then show "nextPowerOfTwo v = 0" by (rule nextPowerOfTwo_at_zero)
next
  assume "0 < toInt v"
  then show "\<exists>n. nextPowerOfTwo v = 2 ^ n \<and> toInt v \<le> 2 ^ n \<and> 2 ^ n < 2 * toInt v
             \<and> (\<forall>m. toInt v \<le> 2 ^ m \<longrightarrow> (2::int) ^ n \<le> 2 ^ m)"
    by (rule nextPowerOfTwo_least)
qed (rule nextPowerOfTwo_0 nextPowerOfTwo_1 nextPowerOfTwo_5 nextPowerOfTwo_minus_3)+

theorem nextPowerOfTwo_spec_witness:
  "toInt (Fin (57 / 10)) = 5
   \<and> toInt (Fin (- 3)) < 0 \<and> nextPowerOfTwo (Fin (- 3)) = 0
   \<and> toInt (Fin 0) = 0 \<and> nextPowerOfTwo (Fin 0) = 0
   \<and> 0 < toInt (Fin 5)
   \<and> (\<exists>n. nextPowerOfTwo (Fin 5) = 2 ^ n \<and> toInt (Fin 5) \<le> 2 ^ n \<and> 2 ^ n < 2 * toInt (Fin 5))"
proof -
  have a: "toInt (Fin (57 / 10)) = 5"
    using nextPowerOfTwo_spec [of "57 / 10" "Fin 0"] by (simp add: js_trunc_57)
  have b: "0 < toInt (Fin 5)" "toInt (Fin (- 3)) < 0"
    by (simp_all add: toInt_5 toInt_minus_3)
  have c: "\<exists>n. nextPowerOfTwo (Fin 5) = 2 ^ n \<and> toInt (Fin 5) \<le> 2 ^ n \<and> 2 ^ n < 2 * toInt (Fin 5)"
    using nextPowerOfTwo_spec [of 0 "Fin 5"] b(1) by blast
  have d: "nextPowerOfTwo (Fin (- 3)) = 0"
    using nextPowerOfTwo_spec [of 0 "Fin (- 3)"] b(2) by blast
  have e: "nextPowerOfTwo (Fin 0) = 0"
    using nextPowerOfTwo_spec [of 0 "Fin 0"] toInt_0 by blast
  from a b c d e toInt_0 show ?thesis by blast
qed

section \<open>The closest power of two\<close>

lemma next_above_2_30: "nextPowerOfTwo (Fin (2 ^ 30 + 1)) = 2 ^ 31"
  by code_simp

lemma closest_above_2_30: "closestPowerOfTwo (Fin (2 ^ 30 + 1)) = - (2 ^ 30)"
  by code_simp

lemma closest_5: "closestPowerOfTwo (Fin 5) = 4"
  by code_simp

lemma sar_2_31: "js_sar (2 ^ 31) 2 = - (2 ^ 29)"
  by code_simp

text \<open>
  Claim C6 says that \<open>closestPowerOfTwo\<close> returns \<open>next >> 1\<close>, the previous power of
  two, when the gap \<open>next - value\<close> exceeds \<open>next >> 2\<close>, a quarter of \<open>next\<close>. For the
  value \<open>2 ^ 30 + 1\<close> the next power of two is \<open>2 ^ 31\<close>, which the 32-bit shifts
  read as \<open>- 2 ^ 31\<close>: the code returns \<open>- 2 ^ 30\<close>.
\<close>

theorem closestPowerOfTwo_above_2_30:
  "nextPowerOfTwo (Fin (2 ^ 30 + 1)) = 2 ^ 31
   \<and> js_sar (2 ^ 31) 2 = - (2 ^ 29)
   \<and> closestPowerOfTwo (Fin (2 ^ 30 + 1)) = - (2 ^ 30)"
  by (intro conjI) (rule next_above_2_30 sar_2_31 closest_above_2_30)+

text \<open>
  When the next power of two is below \<open>2 ^ 31\<close> the two shifts are the halving and the
  quartering that the claim describes.
\<close>

lemma closestPowerOfTwo_in_range:
  assumes "0 \<le> nextPowerOfTwo v" "nextPowerOfTwo v < 2 ^ 31"
  shows "closestPowerOfTwo v =
    (let n = nextPowerOfTwo v in
     if js_gt (js_sub (Fin (of_int n)) v) (Fin (of_int (n div 4))) then n div 2 else n)"
  using assms by (simp add: closestPowerOfTwo_def Let_def js_sar_nonneg drop_bit_eq_div)

section \<open>Properties of the rounding\<close>

lemma rne_of_int: "rne (of_int n) = n"
  by (simp add: rne_def)

lemma rne_floor: "\<lfloor>x\<rfloor> \<le> rne x" and rne_floor_Suc: "rne x \<le> \<lfloor>x\<rfloor> + 1"
  by (simp_all add: rne_def Let_def)

lemma rne_mono:
  assumes "x \<le> y"
  shows "rne x \<le> rne y"
proof (cases "\<lfloor>x\<rfloor> = \<lfloor>y\<rfloor>")
  case True
  with assms show ?thesis
    by (auto simp: rne_def Let_def)
next
  case False
  with assms have "\<lfloor>x\<rfloor> + 1 \<le> \<lfloor>y\<rfloor>"
    using floor_mono [OF assms] by linarith
  with rne_floor_Suc [of x] rne_floor [of y] show ?thesis by linarith
qed

lemma bitlen_real_bounds:
  assumes "0 < n"
  defines "L \<equiv> nat (bitlen n)"
  shows "0 < L" and "(2::real) ^ (L - 1) \<le> of_int n" and "real_of_int n + 1 \<le> 2 ^ L"
    and "bitlen n = int L"
proof -
  from bitlen_bounds [OF assms(1)] have b: "2 ^ (L - 1) \<le> n" "n < 2 ^ L"
    by (simp_all add: L_def nat_diff_distrib' bitlen_nonneg)
  show "0 < L" using b(2) assms(1) by (cases L) simp_all
  from b(1) have "real_of_int (2 ^ (L - 1)) \<le> real_of_int n" by (simp only: of_int_le_iff)
  then show "(2::real) ^ (L - 1) \<le> of_int n" by simp
  from b(2) have "n + 1 \<le> 2 ^ L" by simp
  then have "real_of_int (n + 1) \<le> real_of_int (2 ^ L)" by (simp only: of_int_le_iff)
  then show "real_of_int n + 1 \<le> 2 ^ L" by simp
  show "bitlen n = int L" by (simp add: L_def bitlen_nonneg)
qed

lemma ilog2_ge_one:
  assumes "1 \<le> x"
  shows "2 powi ilog2 x \<le> x" and "x < 2 powi (ilog2 x + 1)"
proof -
  define n where "n = \<lfloor>x\<rfloor>"
  define L where "L = nat (bitlen n)"
  from assms have n: "0 < n" by (simp add: n_def)
  note b = bitlen_real_bounds [OF n, folded L_def]
  have k: "ilog2 x = int (L - 1)" "ilog2 x + 1 = int L"
    using assms b(1) by (simp_all add: ilog2_def n_def [symmetric] b(4))
  have "(2::real) ^ (L - 1) \<le> of_int n" by (rule b(2))
  also have "\<dots> \<le> x" by (simp add: n_def)
  finally show "2 powi ilog2 x \<le> x" by (simp add: k)
  have "x < real_of_int n + 1" by (simp add: n_def)
  also note b(3)
  finally show "x < 2 powi (ilog2 x + 1)" by (simp only: k(2) power_int_of_nat)
qed

lemma ilog2_less_one:
  assumes "0 < x" "x < 1"
  shows "2 powi ilog2 x \<le> x" and "x < 2 powi (ilog2 x + 1)"
proof -
  define n where "n = \<lceil>1 / x\<rceil> - 1"
  define L where "L = nat (bitlen n)"
  from assms have "1 < 1 / x" by simp
  then have n: "0 < n" by (simp add: n_def less_ceiling_iff)
  note b = bitlen_real_bounds [OF n, folded L_def]
  have k: "ilog2 x = - int L"
    using assms by (simp add: ilog2_def n_def [symmetric] b(4))
  have lo: "real_of_int n < 1 / x" by (simp add: n_def) linarith
  have hi: "1 / x \<le> real_of_int n + 1" by (simp add: n_def)
  from hi b(3) have "1 / x \<le> 2 ^ L" by (rule order_trans)
  then have "1 \<le> 2 ^ L * x" using assms(1) by (simp add: field_simps)
  then show "2 powi ilog2 x \<le> x"
    by (simp add: k power_int_minus field_simps)
  from b(2) lo have "2 ^ (L - 1) < 1 / x" by (rule le_less_trans)
  then have "2 ^ (L - 1) * x < 1" using assms(1) by (simp add: field_simps)
  moreover have "ilog2 x + 1 = - int (L - 1)" using b(1) by (simp add: k)
  ultimately show "x < 2 powi (ilog2 x + 1)"
    by (simp add: power_int_minus field_simps)
qed

lemma ilog2_bounds:
  assumes "0 < x"
  shows "2 powi ilog2 x \<le> x" and "x < 2 powi (ilog2 x + 1)"
  using assms ilog2_ge_one [of x] ilog2_less_one [of x] by (cases "1 \<le> x"; simp)+

lemma ilog2_mono:
  assumes "0 < x" "x \<le> y"
  shows "ilog2 x \<le> ilog2 y"
proof -
  from assms have y: "0 < y" by simp
  have "(2::real) powi ilog2 x \<le> x" using assms(1) by (rule ilog2_bounds)
  also note assms(2)
  also have "y < 2 powi (ilog2 y + 1)" using y by (rule ilog2_bounds)
  finally have less: "(2::real) powi ilog2 x < 2 powi (ilog2 y + 1)" .
  show ?thesis
  proof (rule ccontr)
    assume "\<not> ilog2 x \<le> ilog2 y"
    then have "ilog2 y + 1 \<le> ilog2 x" by simp
    then have "(2::real) powi (ilog2 y + 1) \<le> 2 powi ilog2 x"
      by (rule power_int_increasing) simp
    with less show False by simp
  qed
qed

lemma ulp_exp_mono: "0 < x \<Longrightarrow> x \<le> y \<Longrightarrow> ulp_exp x \<le> ulp_exp y"
  using ilog2_mono [of x y] by (simp add: ulp_exp_def)

lemma fl_pos_eq:
  "0 < x \<Longrightarrow> fl x = of_int (rne (x / 2 powi ulp_exp x)) * 2 powi ulp_exp x"
  by (simp add: fl_def)

lemma fl_nonneg:
  assumes "0 \<le> x"
  shows "0 \<le> fl x"
proof (cases "x = 0")
  case True
  then show ?thesis by (simp add: fl_def)
next
  case False
  with assms have "0 \<le> x / 2 powi ulp_exp x" by simp
  then have "0 \<le> \<lfloor>x / 2 powi ulp_exp x\<rfloor>" by simp
  with rne_floor [of "x / 2 powi ulp_exp x"] have "0 \<le> rne (x / 2 powi ulp_exp x)"
    by linarith
  with False show ?thesis by (simp add: fl_def)
qed

lemma fl_upper:
  assumes "0 < x"
  shows "fl x \<le> 2 powi (ulp_exp x + 53)"
proof -
  define e where "e = ulp_exp x"
  have p: "(0::real) < 2 powi e" by simp
  have "ilog2 x + 1 \<le> e + 53" using assms by (simp add: e_def ulp_exp_def)
  then have "(2::real) powi (ilog2 x + 1) \<le> 2 powi (e + 53)"
    by (rule power_int_increasing) simp
  with ilog2_bounds(2) [OF assms] have "x < 2 powi (e + 53)" by simp
  also have "\<dots> = 2 ^ 53 * 2 powi e" by (simp add: power_int_add)
  finally have "x / 2 powi e < 2 ^ 53" using p by (simp add: field_simps)
  then have "x / 2 powi e \<le> real_of_int (2 ^ 53)" by simp
  from rne_mono [OF this] have "rne (x / 2 powi e) \<le> 2 ^ 53"
    by (simp only: rne_of_int)
  then have "real_of_int (rne (x / 2 powi e)) \<le> real_of_int (2 ^ 53)"
    by (simp only: of_int_le_iff)
  then have "real_of_int (rne (x / 2 powi e)) * 2 powi e \<le> 2 ^ 53 * 2 powi e"
    using p by simp
  then show ?thesis using assms by (simp add: fl_pos_eq e_def power_int_add)
qed

lemma fl_lower:
  assumes "0 < x" "- 1074 < ulp_exp x"
  shows "2 powi (ulp_exp x + 52) \<le> fl x"
proof -
  define e where "e = ulp_exp x"
  have p: "(0::real) < 2 powi e" by simp
  have "ilog2 x = e + 52" using assms by (simp add: e_def ulp_exp_def)
  with ilog2_bounds(1) [OF assms(1)] have "2 powi (e + 52) \<le> x" by simp
  moreover have "(2::real) powi (e + 52) = 2 ^ 52 * 2 powi e" by (simp add: power_int_add)
  ultimately have "2 ^ 52 \<le> x / 2 powi e" using p by (simp add: field_simps)
  then have "real_of_int (2 ^ 52) \<le> x / 2 powi e" by simp
  from rne_mono [OF this] have "2 ^ 52 \<le> rne (x / 2 powi e)"
    by (simp only: rne_of_int)
  then have "real_of_int (2 ^ 52) \<le> real_of_int (rne (x / 2 powi e))"
    by (simp only: of_int_le_iff)
  then have "2 ^ 52 * 2 powi e \<le> real_of_int (rne (x / 2 powi e)) * 2 powi e"
    using p by simp
  then show ?thesis using assms by (simp add: fl_pos_eq e_def power_int_add)
qed

lemma fl_mono_pos:
  assumes "0 < x" "x \<le> y"
  shows "fl x \<le> fl y"
proof -
  from assms have y: "0 < y" by simp
  from ulp_exp_mono [OF assms] consider "ulp_exp x = ulp_exp y" | "ulp_exp x < ulp_exp y"
    by linarith
  then show ?thesis
  proof cases
    case 1
    define e where "e = ulp_exp y"
    have p: "(0::real) < 2 powi e" by simp
    from assms(2) p have "x / 2 powi e \<le> y / 2 powi e" by (simp add: divide_right_mono)
    from rne_mono [OF this]
    have "real_of_int (rne (x / 2 powi e)) \<le> real_of_int (rne (y / 2 powi e))"
      by (simp only: of_int_le_iff)
    then have "real_of_int (rne (x / 2 powi e)) * 2 powi e
        \<le> real_of_int (rne (y / 2 powi e)) * 2 powi e"
      using p by simp
    then show ?thesis using assms(1) y 1 by (simp add: fl_pos_eq e_def)
  next
    case 2
    then have "ulp_exp x + 53 \<le> ulp_exp y + 52" by simp
    then have "(2::real) powi (ulp_exp x + 53) \<le> 2 powi (ulp_exp y + 52)"
      by (rule power_int_increasing) simp
    moreover have "- 1074 \<le> ulp_exp x" by (simp add: ulp_exp_def)
    with 2 have "- 1074 < ulp_exp y" by simp
    ultimately show ?thesis
      using fl_upper [OF assms(1)] fl_lower [OF y] by linarith
  qed
qed

lemma to_number_bounded:
  assumes len: "is_double len" and s: "0 \<le> s" "s \<le> len"
  shows "\<exists>r. to_number s = Fin r \<and> 0 \<le> r \<and> r \<le> len"
proof (cases "s = 0")
  case True
  with s show ?thesis
    by (intro exI [of _ 0]) (simp add: to_number_def fl_def out_of_range_def)
next
  case False
  with s have pos: "0 < s" by simp
  from len have fl_len: "fl len = len" and range: "\<not> out_of_range len"
    by (simp_all add: is_double_def)
  have up: "fl s \<le> len" using fl_mono_pos [OF pos s(2)] fl_len by simp
  have lo: "0 \<le> fl s" using s(1) by (rule fl_nonneg)
  have "\<not> out_of_range (fl s)"
  proof
    assume o: "out_of_range (fl s)"
    then have "0 < fl s" "1024 \<le> ilog2 (fl s)" using lo by (simp_all add: out_of_range_def)
    moreover from this(1) up have "ilog2 (fl s) \<le> ilog2 len" by (rule ilog2_mono)
    moreover from pos s(2) have "0 < len" by simp
    ultimately have "out_of_range len" by (simp add: out_of_range_def)
    with range show False ..
  qed
  with lo up show ?thesis by (simp add: to_number_def)
qed

text \<open>Integers of magnitude below \<open>2 ^ 53\<close> are binary64 values.\<close>

lemma ilog2_less:
  assumes "0 < x" "x < 2 powi k"
  shows "ilog2 x < k"
proof (rule ccontr)
  assume "\<not> ilog2 x < k"
  then have "(2::real) powi k \<le> 2 powi ilog2 x" by (intro power_int_increasing) simp_all
  with ilog2_bounds(1) [OF assms(1)] assms(2) show False by simp
qed

lemma fl_of_int:
  assumes "\<bar>n\<bar> < 2 ^ 53"
  shows "fl (of_int n) = of_int n" and "\<not> out_of_range (of_int n)"
proof -
  show "fl (of_int n) = of_int n"
  proof (cases "n = 0")
    case True
    then show ?thesis by (simp add: fl_def)
  next
    case False
    define x :: real where "x = of_int n"
    define e where "e = ulp_exp x"
    from False have pos: "0 < \<bar>x\<bar>" by (simp add: x_def)
    have "\<bar>x\<bar> < 2 powi 53" using assms by (simp add: x_def)
    from ilog2_less [OF pos this] have e0: "e \<le> 0" "- 1074 \<le> e"
      by (simp_all add: e_def ulp_exp_def)
    define k where "k = nat (- e)"
    have "e = - int k" using e0 by (simp add: k_def)
    then have pk: "(2::real) powi e = inverse (2 ^ k)"
      by (simp add: power_int_minus)
    have "x / 2 powi e = of_int (n * 2 ^ k)" by (simp add: pk x_def field_simps)
    then have "rne (x / 2 powi e) = n * 2 ^ k" by (simp only: rne_of_int)
    then have "fl x = of_int (n * 2 ^ k) * inverse (2 ^ k)"
      using False by (simp add: fl_def x_def [symmetric] e_def [symmetric] pk)
    then show ?thesis by (simp add: x_def)
  qed
  show "\<not> out_of_range (of_int n)"
  proof
    assume o: "out_of_range (real_of_int n)"
    then have pos: "0 < \<bar>real_of_int n\<bar>" and big: "1024 \<le> ilog2 \<bar>real_of_int n\<bar>"
      by (simp_all add: out_of_range_def)
    have "\<bar>real_of_int n\<bar> < 2 powi 53" using assms by simp
    from ilog2_less [OF pos this] big show False by simp
  qed
qed

lemma to_number_of_int: "\<bar>n\<bar> < 2 ^ 53 \<Longrightarrow> to_number (of_int n) = Fin (of_int n)"
  by (simp add: to_number_def fl_of_int)

section \<open>The sawtooth wrap\<close>

lemma js_mod_Fin:
  "len \<noteq> 0 \<Longrightarrow> js_mod (Fin t) (Fin len) = Fin (t - len * of_int (js_trunc (t / len)))"
  by simp

lemma remainder_pos:
  assumes "0 < t" "0 < len"
  defines "m \<equiv> t - len * of_int (js_trunc (t / len))"
  shows "0 \<le> m" and "m < len"
proof -
  define q where "q = t / len"
  have q: "0 \<le> q" using assms(1,2) by (simp add: q_def)
  have "m = q * len - len * of_int (js_trunc q)"
    unfolding m_def q_def using assms(2) by simp
  moreover have "js_trunc q = \<lfloor>q\<rfloor>"
    unfolding js_trunc_def using q by simp
  ultimately have m: "m = len * (q - of_int \<lfloor>q\<rfloor>)" by (simp add: algebra_simps)
  have "0 \<le> q - of_int \<lfloor>q\<rfloor>" "q - of_int \<lfloor>q\<rfloor> < 1" by linarith+
  then show "0 \<le> m" and "m < len" using assms(2) by (simp_all add: m)
qed

lemma remainder_nonpos:
  assumes "t \<le> 0" "0 < len"
  defines "m \<equiv> t - len * of_int (js_trunc (t / len))"
  shows "- len < m" and "m \<le> 0"
proof -
  define q where "q = t / len"
  have q: "q \<le> 0" using assms(1,2) by (simp add: q_def divide_nonpos_pos)
  have "m = q * len - len * of_int (js_trunc q)"
    unfolding m_def q_def using assms(2) by simp
  moreover have "js_trunc q = \<lceil>q\<rceil>"
  proof (cases "q < 0")
    case True
    then show ?thesis unfolding js_trunc_def by simp
  next
    case False
    with q have "q = 0" by simp
    then show ?thesis unfolding js_trunc_def by simp
  qed
  ultimately have m: "m = len * (q - of_int \<lceil>q\<rceil>)" by (simp add: algebra_simps)
  have d: "- 1 < q - of_int \<lceil>q\<rceil>" "q - of_int \<lceil>q\<rceil> \<le> 0" by linarith+
  from mult_strict_left_mono [OF d(1) assms(2)] show "- len < m" by (simp add: m)
  from assms(2) have "0 \<le> len" by simp
  from mult_left_mono [OF d(2) this] show "m \<le> 0" by (simp add: m)
qed

lemma repeat_7_5: "repeat (Fin 7) (Fin 5) = Fin 2" by code_simp
lemma repeat_minus_2_5: "repeat (Fin (- 2)) (Fin 5) = Fin 3" by code_simp
lemma repeat_0_5: "repeat (Fin 0) (Fin 5) = Fin 5" by code_simp
lemma repeat_tiny_1: "repeat (Fin (- (1 / 2 ^ 60))) (Fin 1) = Fin 1" by code_simp
lemma is_double_5: "is_double 5" by code_simp
lemma is_double_1: "is_double 1" by code_simp
lemma is_double_tiny: "is_double (- (1 / 2 ^ 60))" by code_simp

text \<open>
  Claim C2 says that for every positive length the result of \<open>repeat\<close> is strictly
  less than the length. At \<open>t = 0\<close> the remainder is 0 and the code returns the length
  itself; at \<open>t = - 2 ^ -60\<close> and length 1 the sum \<open>1 - 2 ^ -60\<close> rounds to 1.
\<close>

theorem repeat_reaches_length:
  "is_double 5 \<and> (0::real) < 5 \<and> repeat (Fin 0) (Fin 5) = Fin 5
   \<and> \<not> js_lt (repeat (Fin 0) (Fin 5)) (Fin 5)
   \<and> is_double 1 \<and> (0::real) < 1 \<and> is_double (- (1 / 2 ^ 60))
   \<and> repeat (Fin (- (1 / 2 ^ 60))) (Fin 1) = Fin 1
   \<and> \<not> js_lt (repeat (Fin (- (1 / 2 ^ 60))) (Fin 1)) (Fin 1)"
proof -
  have a: "\<not> js_lt (repeat (Fin 0) (Fin 5)) (Fin 5)"
    by (simp only: repeat_0_5) simp
  have b: "\<not> js_lt (repeat (Fin (- (1 / 2 ^ 60))) (Fin 1)) (Fin 1)"
    by (simp only: repeat_tiny_1) simp
  have c: "(0::real) < 5" "(0::real) < 1" by simp_all
  show ?thesis
    by (intro conjI)
      (rule is_double_5 is_double_1 is_double_tiny repeat_0_5 repeat_tiny_1 a b c)+
qed

text \<open>
  Claim C2, amended. For every binary64 length above 0 and every finite \<open>t\<close>,
  \<open>repeat t length\<close> is \<open>t % length\<close> for \<open>t > 0\<close> and \<open>length + (t % length)\<close> for
  \<open>t \<le> 0\<close>, and lies in the closed interval from 0 to the length: at least 0 and
  at most the length, and strictly less than the length for \<open>t > 0\<close>. In particular
  \<open>repeat 7 5 = 2\<close> and \<open>repeat (-2) 5 = 3\<close>.
\<close>

theorem repeat_range:
  assumes "is_double len" "0 < len"
  shows "(0 < t \<longrightarrow> repeat (Fin t) (Fin len) = js_mod (Fin t) (Fin len))
    \<and> (t \<le> 0 \<longrightarrow> repeat (Fin t) (Fin len) = js_add (Fin len) (js_mod (Fin t) (Fin len)))
    \<and> (\<exists>r. repeat (Fin t) (Fin len) = Fin r \<and> 0 \<le> r \<and> r \<le> len \<and> (0 < t \<longrightarrow> r < len))
    \<and> repeat (Fin 7) (Fin 5) = Fin 2 \<and> repeat (Fin (- 2)) (Fin 5) = Fin 3"
proof (intro conjI impI)
  assume "0 < t"
  then show "repeat (Fin t) (Fin len) = js_mod (Fin t) (Fin len)"
    by (simp add: repeat_def js_gt_def)
next
  assume "t \<le> 0"
  then show "repeat (Fin t) (Fin len) = js_add (Fin len) (js_mod (Fin t) (Fin len))"
    by (simp add: repeat_def js_gt_def)
next
  define m where "m = t - len * of_int (js_trunc (t / len))"
  have md: "js_mod (Fin t) (Fin len) = Fin m" using assms(2) by (simp add: m_def)
  show "\<exists>r. repeat (Fin t) (Fin len) = Fin r \<and> 0 \<le> r \<and> r \<le> len \<and> (0 < t \<longrightarrow> r < len)"
  proof (cases "0 < t")
    case True
    from remainder_pos [OF True assms(2)] have "0 \<le> m" "m < len" by (simp_all add: m_def)
    with True md show ?thesis by (simp add: repeat_def js_gt_def)
  next
    case False
    then have t: "t \<le> 0" by simp
    from remainder_nonpos [OF t assms(2)] have "- len < m" "m \<le> 0" by (simp_all add: m_def)
    then have "0 \<le> len + m" "len + m \<le> len" by simp_all
    from to_number_bounded [OF assms(1) this]
    obtain r where "to_number (len + m) = Fin r" "0 \<le> r" "r \<le> len" by blast
    with False md show ?thesis by (simp add: repeat_def js_gt_def)
  qed
qed (rule repeat_7_5 repeat_minus_2_5)+

theorem repeat_range_witness:
  "is_double 5 \<and> (0::real) < 5
   \<and> repeat (Fin 7) (Fin 5) = js_mod (Fin 7) (Fin 5)
   \<and> repeat (Fin (- 2)) (Fin 5) = js_add (Fin 5) (js_mod (Fin (- 2)) (Fin 5))
   \<and> (\<exists>r. repeat (Fin 7) (Fin 5) = Fin r \<and> 0 \<le> r \<and> r < 5)
   \<and> (\<exists>r. repeat (Fin (- 2)) (Fin 5) = Fin r \<and> 0 \<le> r \<and> r \<le> 5)"
proof -
  have h: "is_double 5" "(0::real) < 5" by (simp_all add: is_double_5)
  have p: "(0::real) < 7" and n: "(- 2::real) \<le> 0" by simp_all
  from repeat_range [OF h, of 7] p repeat_range [OF h, of "- 2"] n h show ?thesis
    by blast
qed

section \<open>Interpolation\<close>

lemma lerpUnclamped_0_10_2: "lerpUnclamped (Fin 0) (Fin 10) (Fin 2) = Fin 20"
  by code_simp

lemma lerpUnclamped_10_0_2: "lerpUnclamped (Fin 10) (Fin 0) (Fin 2) = Fin 30"
  by code_simp

text \<open>
  Claim C4. When \<open>t\<close> is below 0 or above 1, \<open>lerpUnclamped a b t\<close> is
  \<open>a + abs (b - a) * t\<close>, with the absolute difference; otherwise it is \<open>lerp a b t\<close>.
  In particular \<open>lerpUnclamped 0 10 2 = 20\<close> and \<open>lerpUnclamped 10 0 2 = 30\<close>.
\<close>

theorem lerpUnclamped_policy:
  "(js_lt t (Fin 0) \<or> js_gt t (Fin 1) \<longrightarrow>
      lerpUnclamped a b t = js_add a (js_mul (Math_abs (js_sub b a)) t))
   \<and> (\<not> (js_lt t (Fin 0) \<or> js_gt t (Fin 1)) \<longrightarrow> lerpUnclamped a b t = lerp a b t)
   \<and> lerpUnclamped (Fin 0) (Fin 10) (Fin 2) = Fin 20
   \<and> lerpUnclamped (Fin 10) (Fin 0) (Fin 2) = Fin 30"
proof (intro conjI impI)
  assume "js_lt t (Fin 0) \<or> js_gt t (Fin 1)"
  then show "lerpUnclamped a b t = js_add a (js_mul (Math_abs (js_sub b a)) t)"
    unfolding lerpUnclamped_def by (rule if_P)
next
  assume "\<not> (js_lt t (Fin 0) \<or> js_gt t (Fin 1))"
  then show "lerpUnclamped a b t = lerp a b t"
    unfolding lerpUnclamped_def lerp_def by (rule if_not_P)
qed (rule lerpUnclamped_0_10_2 lerpUnclamped_10_0_2)+

theorem lerpUnclamped_policy_witness:
  "js_gt (Fin 2) (Fin 1)
   \<and> lerpUnclamped (Fin 10) (Fin 0) (Fin 2)
       = js_add (Fin 10) (js_mul (Math_abs (js_sub (Fin 0) (Fin 10))) (Fin 2))
   \<and> \<not> (js_lt (Fin (1 / 2)) (Fin 0) \<or> js_gt (Fin (1 / 2)) (Fin 1))
   \<and> lerpUnclamped (Fin 0) (Fin 10) (Fin (1 / 2)) = lerp (Fin 0) (Fin 10) (Fin (1 / 2))"
  using lerpUnclamped_policy [of "Fin 2" "Fin 10" "Fin 0"]
    lerpUnclamped_policy [of "Fin (1 / 2)" "Fin 0" "Fin 10"]
  by (simp add: js_gt_def)

subsection \<open>The inverse\<close>

lemma fl_zero: "fl 0 = 0"
  by (simp add: fl_def)

lemma to_number_zero: "to_number 0 = Fin 0"
  by (simp add: to_number_def fl_zero out_of_range_def)

lemma js_sub_self: "a \<noteq> NaN \<Longrightarrow> js_sub a a = (case a of Fin x \<Rightarrow> Fin 0 | _ \<Rightarrow> NaN)"
  by (cases a) (simp_all add: js_sub_def to_number_zero)

lemma clamp_same: "a \<noteq> NaN \<Longrightarrow> v \<noteq> NaN \<Longrightarrow> clamp v a a = a"
  by (cases a; cases v) (auto simp: clamp_def js_gt_def)

lemma js_lt_NaN_right: "\<not> js_lt x NaN"
  by (cases x) simp_all

lemma clamp_NaN: "clamp NaN lo hi = NaN"
  by (simp add: clamp_def js_gt_def js_lt_NaN_right)

lemma Math_min_same: "Math_min a a = a"
  by (cases a) (simp_all add: Math_min_def)

lemma Math_max_same: "Math_max a a = a"
  by (cases a) (simp_all add: Math_max_def)

lemma inverseLerp_same: "a \<noteq> NaN \<Longrightarrow> inverseLerp a a v = NaN"
proof (cases "v = NaN")
  case True
  then show ?thesis
    by (simp add: inverseLerp_def clamp_NaN js_sub_def)
next
  case False
  assume a: "a \<noteq> NaN"
  with False have "clamp v (Math_min a a) (Math_max a a) = a"
    by (simp add: Math_min_same Math_max_same clamp_same)
  with a show ?thesis
    by (cases a) (simp_all add: inverseLerp_def js_sub_self)
qed

text \<open>
  Claim C7. \<open>inverseLerp\<close> is a total function on numbers: no input raises. When
  \<open>a == b\<close> the numerator is \<open>a - a\<close> and the denominator \<open>b - a\<close>, and the result is
  the special value \<open>NaN\<close>; otherwise the result is
  \<open>(clamp(value, min(a, b), max(a, b)) - a) / (b - a)\<close>.
\<close>

theorem inverseLerp_total:
  "(js_eq a b \<longrightarrow> inverseLerp a b v = NaN)
   \<and> (\<not> js_eq a b \<longrightarrow>
        inverseLerp a b v = js_div (js_sub (clamp v (Math_min a b) (Math_max a b)) a) (js_sub b a))"
  by (auto simp: js_eq_def inverseLerp_same) (simp_all add: inverseLerp_def)

theorem inverseLerp_total_witness:
  "js_eq (Fin 3) (Fin 3) \<and> inverseLerp (Fin 3) (Fin 3) (Fin 7) = NaN
   \<and> \<not> js_eq (Fin 0) (Fin 10)
   \<and> inverseLerp (Fin 0) (Fin 10) (Fin 5)
       = js_div (js_sub (clamp (Fin 5) (Math_min (Fin 0) (Fin 10)) (Math_max (Fin 0) (Fin 10))) (Fin 0))
           (js_sub (Fin 10) (Fin 0))"
  using inverseLerp_total [of "Fin 3" "Fin 3" "Fin 7"] inverseLerp_total [of "Fin 0" "Fin 10" "Fin 5"]
  by (simp add: js_eq_def)

section \<open>Moving toward a target\<close>

text \<open>
  Claim C3 says that \<open>moveTowards\<close> returns the target whenever the distance to it is
  at most a positive \<open>maxDelta\<close>. When the current value already is the target,
  neither of the two strict comparisons of the snap holds and the code steps away from
  the target by \<open>maxDelta\<close>: \<open>moveTowards 5 5 3\<close> is 8.
\<close>

theorem moveTowards_at_target: "moveTowards (Fin 5) (Fin 5) (Fin 3) = Fin 8"
  by code_simp

text \<open>Away from that case the two examples of the specification hold.\<close>

lemma moveTowards_0_10_3: "moveTowards (Fin 0) (Fin 10) (Fin 3) = Fin 3"
  by code_simp

lemma moveTowards_8_10_3: "moveTowards (Fin 8) (Fin 10) (Fin 3) = Fin 10"
  by code_simp

section \<open>The loops of lerpAngle\<close>

text \<open>
  At \<open>b = - 2 ^ 70\<close> the spacing of the binary64 values is \<open>2 ^ 18\<close>: adding 180 or 360
  gives \<open>b\<close> back.
\<close>

lemma is_double_2_70: "is_double (- (2 ^ 70))"
  by code_simp

lemma up_stuck_step0: "js_add (Fin (- (2 ^ 70))) FULL_ANGLE = Fin (- (2 ^ 70))"
  by code_simp

lemma up_stuck_test0: "js_gt (Fin 0) (js_add (Fin (- (2 ^ 70))) STRAIGHT_ANGLE)"
  by code_simp

lemma up_stuck_step: "b = Fin (- (2 ^ 70)) \<Longrightarrow> js_add b FULL_ANGLE = b"
  using up_stuck_step0 by (simp only:)

lemma up_stuck_test: "b = Fin (- (2 ^ 70)) \<Longrightarrow> js_gt (Fin 0) (js_add b STRAIGHT_ANGLE)"
  using up_stuck_test0 by (simp only:)

lemma lerpAngle_up_stuck:
  assumes "lerpAngle_up a b = Some y"
  shows "\<not> (a = Fin 0 \<and> b = Fin (- (2 ^ 70)))"
proof (rule lerpAngle_up.raw_induct
    [where P = "\<lambda>a b y. \<not> (a = Fin 0 \<and> b = Fin (- (2 ^ 70)))", OF _ assms])
  fix up :: "number \<Rightarrow> number \<Rightarrow> number option" and a b y
  assume IH: "\<And>a b y. up a b = Some y \<Longrightarrow> \<not> (a = Fin 0 \<and> b = Fin (- (2 ^ 70)))"
    and body: "(if js_gt a (js_add b STRAIGHT_ANGLE) then up a (js_add b FULL_ANGLE)
                else Some b) = Some y"
  show "\<not> (a = Fin 0 \<and> b = Fin (- (2 ^ 70)))"
  proof
    assume ab: "a = Fin 0 \<and> b = Fin (- (2 ^ 70))"
    then have test: "js_gt a (js_add b STRAIGHT_ANGLE)"
      using up_stuck_test [of b] by simp
    from ab have step: "js_add b FULL_ANGLE = b"
      by (simp add: up_stuck_step)
    from body have "up a b = Some y"
      by (simp only: test step if_True)
    from IH [OF this] ab show False by simp
  qed
qed

text \<open>
  Claim C8 says that \<open>lerpAngle\<close> terminates for all finite arguments. At \<open>a = 0\<close> and
  \<open>b = - 2 ^ 70\<close> the first loop never ends: its test holds and its body leaves \<open>b\<close>
  unchanged.
\<close>

theorem lerpAngle_never_returns:
  "is_double (- (2 ^ 70)) \<and> lerpAngle (Fin 0) (Fin (- (2 ^ 70))) t = None"
proof -
  have "lerpAngle_up (Fin 0) (Fin (- (2 ^ 70))) = None"
    using lerpAngle_up_stuck [of "Fin 0" "Fin (- (2 ^ 70))"] by (cases "lerpAngle_up (Fin 0) (Fin (- (2 ^ 70)))") auto
  then have "lerpAngle (Fin 0) (Fin (- (2 ^ 70))) t = None"
    by (simp only: lerpAngle_def option.case)
  with is_double_2_70 show ?thesis by (rule conjI)
qed

text \<open>On ordinary angles both loops end: from 350 to 10 degrees the way leads through 360.\<close>

lemma up_350_10_test: "js_gt (Fin 350) (js_add (Fin 10) STRAIGHT_ANGLE)" by code_simp
lemma up_350_10_step: "js_add (Fin 10) FULL_ANGLE = Fin 370" by code_simp
lemma up_350_370_test: "\<not> js_gt (Fin 350) (js_add (Fin 370) STRAIGHT_ANGLE)" by code_simp
lemma down_350_370_test: "\<not> js_gt (Fin 370) (js_add (Fin 350) STRAIGHT_ANGLE)" by code_simp
lemma lerp_350_370: "lerp (Fin 350) (Fin 370) (Fin (1 / 2)) = Fin 360" by code_simp

lemma lerpAngle_350_10: "lerpAngle (Fin 350) (Fin 10) (Fin (1 / 2)) = Some (Fin 360)"
proof -
  have "lerpAngle_up (Fin 350) (Fin 10) = lerpAngle_up (Fin 350) (Fin 370)"
    by (subst lerpAngle_up.simps) (simp only: up_350_10_test up_350_10_step if_True)
  also have "\<dots> = Some (Fin 370)"
    by (subst lerpAngle_up.simps) (simp only: up_350_370_test if_False)
  finally have up: "lerpAngle_up (Fin 350) (Fin 10) = Some (Fin 370)" .
  have down: "lerpAngle_down (Fin 350) (Fin 370) = Some (Fin 370)"
    by (subst lerpAngle_down.simps) (simp only: down_350_370_test if_False)
  show ?thesis
    by (simp only: lerpAngle_def up down option.case lerp_350_370)
qed

section \<open>Degrees and radians\<close>

lemma deg2Rad_value: "deg2Rad = Fin (5030569068109113 / 2 ^ 58)"
  by code_simp

lemma rad2Deg_value: "rad2Deg = Fin (1007958012753983 / 2 ^ 44)"
  by code_simp

lemma rad2Deg_times_deg2Rad:
  "js_mul (Fin (1007958012753983 / 2 ^ 44)) (Fin (5030569068109113 / 2 ^ 58)) = Fin 1"
  by code_simp

lemma approximately_one: "approximately (Fin 1) (Fin 1)"
  by code_simp

text \<open>
  Claim C9. \<open>deg2Rad\<close> is \<open>2\<pi> / 360\<close> and \<open>rad2Deg\<close> is \<open>360 / 2\<pi>\<close>, computed in
  binary64 from \<open>Math.PI\<close>; their binary64 product is exactly 1, so
  \<open>approximately (rad2Deg * deg2Rad) 1\<close> holds.
\<close>

theorem deg_rad_round_trip:
  "deg2Rad = js_div (js_mul Math_PI (Fin 2)) (Fin 360)
   \<and> rad2Deg = js_div (Fin 360) (js_mul Math_PI (Fin 2))
   \<and> js_mul rad2Deg deg2Rad = Fin 1
   \<and> approximately (js_mul rad2Deg deg2Rad) (Fin 1)"
proof -
  have d: "deg2Rad = js_div (js_mul Math_PI (Fin 2)) (Fin 360)"
    by (simp only: deg2Rad_def FULL_ANGLE_def)
  have r: "rad2Deg = js_div (Fin 360) (js_mul Math_PI (Fin 2))"
    by (simp only: rad2Deg_def FULL_ANGLE_def)
  have p: "js_mul rad2Deg deg2Rad = Fin 1"
    by (simp only: rad2Deg_value deg2Rad_value rad2Deg_times_deg2Rad)
  have a: "approximately (js_mul rad2Deg deg2Rad) (Fin 1)"
    by (simp only: p approximately_one)
  show ?thesis
    by (rule conjI [OF d conjI [OF r conjI [OF p a]]])
qed

section \<open>Rounding to an integer\<close>

lemma round_below_half: "round_mathf (Fin (1 / 2 - 1 / 2 ^ 54)) = Fin (- (1 / 2 ^ 54))"
  by code_simp

lemma round_above_half: "round_mathf (Fin (1 / 2 + 1 / 2 ^ 53)) = Fin (1 / 2 ^ 53)"
  by code_simp

lemma double_below_half: "is_double (1 / 2 - 1 / 2 ^ 54)"
  by code_simp

lemma double_above_half: "is_double (1 / 2 + 1 / 2 ^ 53)"
  by code_simp

lemma js_trunc_of_int: "js_trunc (of_int m) = m"
  by (simp add: js_trunc_def)

lemma even_mod_2:
  "js_mod (Fin (of_int n)) (Fin 2) = Fin 0 \<longleftrightarrow> even n"
proof -
  define t where "t = js_trunc (real_of_int n / 2)"
  have m: "js_mod (Fin (of_int n)) (Fin 2) = Fin (of_int (n - 2 * t))"
    by (simp add: t_def)
  have e: "n - 2 * t = 0 \<longleftrightarrow> even n"
  proof
    assume "n - 2 * t = 0"
    then have "n = 2 * t" by simp
    then show "even n" by simp
  next
    assume "even n"
    then obtain h where h: "n = 2 * h" by (auto elim: evenE)
    then have "real_of_int n / 2 = of_int h" by simp
    then have "t = h" unfolding t_def by (simp only: js_trunc_of_int)
    with h show "n - 2 * t = 0" by simp
  qed
  have "Fin (real_of_int (n - 2 * t)) = Fin 0 \<longleftrightarrow> n - 2 * t = 0"
    by (simp only: number.inject of_int_eq_0_iff)
  with m e show ?thesis by (simp only:)
qed

text \<open>At an exact .5 boundary the tie branch is taken and rounds to the even neighbour.\<close>

lemma round_mathf_tie:
  assumes "\<bar>k\<bar> < 2 ^ 52"
  shows "round_mathf (Fin (of_int k + 1 / 2)) = Fin (of_int (if even (k + 1) then k + 1 else k))"
proof -
  have k1: "\<bar>k + 1\<bar> < 2 ^ 53" and k0: "\<bar>k\<bar> < 2 ^ 53" using assms by simp_all
  have "real_of_int k + 1 / 2 + 1 / 2 = of_int (k + 1)" by simp
  then have up: "js_add (Fin (of_int k + 1 / 2)) IS_INTEGER = Fin (of_int (k + 1))"
    by (simp only: IS_INTEGER_def js_add.simps to_number_of_int [OF k1])
  have "real_of_int k + 1 / 2 + - (1 / 2) = of_int k" by simp
  then have down: "js_sub (Fin (of_int k + 1 / 2)) IS_INTEGER = Fin (of_int k)"
    by (simp only: IS_INTEGER_def js_sub_def js_neg.simps js_add.simps to_number_of_int [OF k0])
  have "\<lceil>real_of_int k + 1 / 2\<rceil> = k + 1" by (simp add: ceiling_eq_iff)
  then have ceil: "Math_ceil (Fin (of_int k + 1 / 2)) = Fin (of_int (k + 1))"
    by (simp only: Math_ceil.simps)
  show ?thesis
    unfolding round_mathf_def Let_def up ceil
    by (simp only: js_eq_def even_mod_2 down up) simp
qed

text \<open>
  Claim C5 says that \<open>round\<close> takes its tie branch when \<open>f\<close> is exactly at a .5
  boundary and is the standard rounding of \<open>f\<close> otherwise. For the two binary64
  values next to 0.5 the sum \<open>f + 0.5\<close> rounds to 1, which is \<open>ceil f\<close> and odd, and
  the code returns \<open>f - 0.5\<close>: \<open>- 2 ^ -54\<close> where the nearest integer is 0, and
  \<open>2 ^ -53\<close> where it is 1.
\<close>

theorem round_next_to_half:
  "is_double (1 / 2 - 1 / 2 ^ 54)
   \<and> round_mathf (Fin (1 / 2 - 1 / 2 ^ 54)) = Fin (- (1 / 2 ^ 54))
   \<and> is_double (1 / 2 + 1 / 2 ^ 53)
   \<and> round_mathf (Fin (1 / 2 + 1 / 2 ^ 53)) = Fin (1 / 2 ^ 53)"
  by (intro conjI)
    (rule double_below_half round_below_half double_above_half round_above_half)+

text \<open>The two examples of the claim are tie cases and come out as it says.\<close>

lemma round_2_5: "round_mathf (Fin (5 / 2)) = Fin 2"
  by code_simp

lemma round_3_5: "round_mathf (Fin (7 / 2)) = Fin 4"
  by code_simp

end
